theory Spec2Isabelle
  imports Complex_Main "HOL-Library.Word"
begin

unbundle bit_operations_syntax

section \<open>Reciprocal frequency counter for the ATtiny84A (main.c)\<close>

text \<open>
  On the AVR target \<open>uint8_t\<close> and \<open>signed char\<close> are 8 bits wide, \<open>int\<close> and
  \<open>unsigned int\<close> 16 bits, \<open>unsigned long\<close> 32 bits and \<open>unsigned long long\<close>
  64 bits. Unsigned arithmetic wraps around, which is what the operations on
  \<open>'a word\<close> do.
\<close>

type_synonym tick_t = "32 word"

definition MAX_PERIOD :: tick_t where
  "MAX_PERIOD = 0xffffffff"

definition MIN_PERIOD :: tick_t where
  "MIN_PERIOD = 10000"

text \<open>
  The macro \<open>F_CPU\<close> is given on the compiler's command line and is not part of
  main.c, so the functions that use it take it as a parameter (an \<open>unsigned long\<close>).
  The comments of main.c assume a 20 MHz clock; \<open>F_CPU_20MHz\<close> is that value.
\<close>

definition F_CPU_20MHz :: "32 word" where
  "F_CPU_20MHz = 20000000"

subsection \<open>Undefined behaviour as error values\<close>

datatype error = Division_By_Zero | Shift_Too_Wide | Index_Out_Of_Bounds

definition udiv :: "'a::len word \<Rightarrow> 'a word \<Rightarrow> error + 'a word" where
  "udiv a b = (if b = 0 then Inl Division_By_Zero else Inr (a div b))"

subsection \<open>The frequency computation of \<open>display_measurement\<close>\<close>

text \<open>
  Lines 502--519: for \<open>n < 11\<close> the formula
  \<open>(((10UL*F_CPU/64) << n) + ticks/2) / ticks\<close> in 32 bits, otherwise
  \<open>events = (10ULL*F_CPU/64) << n\<close> and \<open>(events + ticks/2) / ticks\<close> in 64 bits,
  the quotient being stored in the 32-bit variable \<open>f\<close>.
\<close>

definition freq_dHz :: "32 word \<Rightarrow> 8 word \<Rightarrow> tick_t \<Rightarrow> error + 32 word" where
  "freq_dHz F_CPU n ticks =
     (if n < 11 then
        udiv (push_bit (unat n) (10 * F_CPU div 64) + ticks div 2) ticks
      else if 64 \<le> n then Inl Shift_Too_Wide
      else
        (let events = push_bit (unat n) (10 * (ucast F_CPU :: 64 word) div 64)
         in case udiv (events + ucast (ticks div 2)) (ucast ticks) of
              Inl e \<Rightarrow> Inl e
            | Inr q \<Rightarrow> Inr (ucast q)))"

subsection \<open>The specification's frequency formula\<close>

text \<open>
  The tick-frequency constant \<open>K = 10 * F_CPU / 64\<close> and the quotient \<open>a / b\<close>
  rounded half up, both over the natural numbers (no wrap-around).
\<close>

definition tick_frequency_constant :: "nat \<Rightarrow> nat" where
  "tick_frequency_constant fcpu = 10 * fcpu div 64"

definition round_half_up :: "nat \<Rightarrow> nat \<Rightarrow> nat" where
  "round_half_up a b = (2 * a + b) div (2 * b)"

definition freq_dHz_spec :: "nat \<Rightarrow> nat \<Rightarrow> nat \<Rightarrow> nat" where
  "freq_dHz_spec fcpu n ticks = round_half_up (tick_frequency_constant fcpu * 2 ^ n) ticks"

subsection \<open>The display line\<close>

text \<open>
  \<open>show_line\<close> keeps the last line in the static buffer \<open>prev_line\<close> (zero-initialised,
  so the empty string at start) and \<open>display_freq\<close> keeps \<open>prev_freq\<close> and
  \<open>curr_range\<close>. The display driver is reduced to what \<open>show_line\<close> uses of it:
  \<open>lcd_home\<close> moves the cursor to the start of the line and \<open>lcd_putc\<close> writes one
  character; \<open>lcd\<close> holds the characters written since the last \<open>lcd_home\<close>.
  A C string is modelled by its characters before the terminating NUL.
\<close>

record display =
  prev_line :: string
  prev_freq :: "32 word"
  curr_range :: "16 word"
  lcd :: string


definition lcd_home :: "display \<Rightarrow> display" where
  "lcd_home d = d\<lparr>lcd := []\<rparr>"

definition lcd_putc :: "char \<Rightarrow> display \<Rightarrow> display" where
  "lcd_putc c d = d\<lparr>lcd := lcd d @ [c]\<rparr>"

definition show_line :: "string \<Rightarrow> display \<Rightarrow> display" where
  "show_line s d =
     (if s = prev_line d then d
      else
        (let shown = take 8 s;
             d1 = fold lcd_putc shown ((lcd_home d)\<lparr>prev_line := shown\<rparr>)
         in fold lcd_putc (replicate (8 - length shown) CHR '' '') d1))"

subsection \<open>Frequency ranges\<close>

text \<open>
  The fields \<open>min\<close> and \<open>max\<close> of the table are \<open>min_range\<close> and \<open>max_range\<close> here.
  \<open>point\<close> and \<open>lsd\<close> are \<open>signed char\<close> columns of the line; they and the
  cursor \<open>pos\<close> stay between \<open>-1\<close> and \<open>5\<close>, so they are integers.
\<close>

record range_entry =
  min_range :: "32 word"
  max_range :: "32 word"
  point :: int
  lsd :: int
  divisor :: "16 word"
  prefix :: char

definition range_tab :: "range_entry list" where
  "range_tab =
    [\<lparr>min_range = 0, max_range = 9999, point = 4, lsd = 5, divisor = 1, prefix = CHR '' ''\<rparr>,
     \<lparr>min_range = 9900, max_range = 99999, point = 1, lsd = 4, divisor = 10, prefix = CHR ''k''\<rparr>,
     \<lparr>min_range = 99000, max_range = 999999, point = 2, lsd = 4, divisor = 100, prefix = CHR ''k''\<rparr>,
     \<lparr>min_range = 990000, max_range = 9999999, point = 3, lsd = 4, divisor = 1000, prefix = CHR ''k''\<rparr>,
     \<lparr>min_range = 9900000, max_range = 99999999, point = 1, lsd = 4, divisor = 10000, prefix = CHR ''M''\<rparr>]"

text \<open>
  Lines 587--592. Reading \<open>range[curr_range]\<close> beyond the five entries is undefined in C
  and an error here. \<open>curr_range\<close> is an \<open>unsigned int\<close>, so \<open>curr_range--\<close> at 0
  would wrap to 65535.
\<close>

function scan_up :: "32 word \<Rightarrow> 16 word \<Rightarrow> error + 16 word" where
  "scan_up freq i =
     (if unat i < length range_tab then
        (if freq > max_range (range_tab ! unat i) then scan_up freq (i + 1) else Inr i)
      else Inl Index_Out_Of_Bounds)"
  by pat_completeness auto
termination
proof (relation "measure (\<lambda>(freq, i). 5 - unat i)")
  show "wf (measure (\<lambda>(freq :: 32 word, i :: 16 word). 5 - unat i))" by simp
next
  fix freq :: "32 word" and i :: "16 word"
  assume "unat i < length range_tab"
  then have "unat i < 5" by (simp add: range_tab_def)
  then have "unat (i + 1) = unat i + 1" by (simp add: unat_word_ariths)
  with \<open>unat i < 5\<close> show "((freq, i + 1), (freq, i)) \<in> measure (\<lambda>(freq, i). 5 - unat i)"
    by simp
qed

function scan_down :: "32 word \<Rightarrow> 16 word \<Rightarrow> error + 16 word" where
  "scan_down freq i =
     (if unat i < length range_tab then
        (if freq < min_range (range_tab ! unat i) then scan_down freq (i - 1) else Inr i)
      else Inl Index_Out_Of_Bounds)"
  by pat_completeness auto
termination
proof (relation "measure (\<lambda>(freq, i). unat i)")
  show "wf (measure (\<lambda>(freq :: 32 word, i :: 16 word). unat i))" by simp
next
  fix freq :: "32 word" and i :: "16 word"
  assume b: "unat i < length range_tab" and l: "freq < min_range (range_tab ! unat i)"
  have "unat i \<noteq> 0"
  proof
    assume "unat i = 0"
    with l show False by (simp add: range_tab_def)
  qed
  then have "i \<noteq> 0" by (simp add: unat_eq_zero)
  then have "unat (i - 1) = unat i - 1" by (simp add: unat_minus_one)
  with \<open>unat i \<noteq> 0\<close> show "((freq, i - 1), (freq, i)) \<in> measure (\<lambda>(freq, i). unat i)"
    by simp
qed

declare scan_up.simps [simp del] scan_down.simps [simp del]

definition select_band :: "32 word \<Rightarrow> 16 word \<Rightarrow> error + 16 word" where
  "select_band freq i = (case scan_up freq i of Inl e \<Rightarrow> Inl e | Inr j \<Rightarrow> scan_down freq j)"

subsection \<open>Formatting the frequency\<close>

text \<open>
  The local buffer \<open>line[9]\<close> is a list of nine characters. C leaves it uninitialised; the
  model starts it with NULs. A write outside the buffer is an error.
\<close>

definition put :: "string \<Rightarrow> int \<Rightarrow> char \<Rightarrow> error + string" where
  "put line pos c =
     (if 0 \<le> pos \<and> nat pos < length line then Inr (line[nat pos := c])
      else Inl Index_Out_Of_Bounds)"

definition digit :: "32 word \<Rightarrow> char" where
  "digit freq = char_of (unat (freq mod 10) + 48)"

text \<open>Lines 610--613: the digits to the right of the decimal point.\<close>

function digits_right :: "int \<Rightarrow> string \<Rightarrow> int \<Rightarrow> 32 word \<Rightarrow> error + (string \<times> int \<times> 32 word)" where
  "digits_right pt line pos freq =
     (if pos > pt then
        (case put line pos (digit freq) of
           Inl e \<Rightarrow> Inl e
         | Inr line' \<Rightarrow> digits_right pt line' (pos - 1) (freq div 10))
      else Inr (line, pos, freq))"
  by pat_completeness auto
termination
  by (relation "measure (\<lambda>(pt, line, pos, freq). nat (pos - pt))") auto

text \<open>Lines 624--627: the non-zero digits to the left of the decimal point.\<close>

function digits_left :: "string \<Rightarrow> int \<Rightarrow> 32 word \<Rightarrow> error + (string \<times> int \<times> 32 word)" where
  "digits_left line pos freq =
     (if freq \<noteq> 0 then
        (case put line pos (digit freq) of
           Inl e \<Rightarrow> Inl e
         | Inr line' \<Rightarrow> digits_left line' (pos - 1) (freq div 10))
      else Inr (line, pos, freq))"
  by pat_completeness auto
termination
proof (relation "measure (\<lambda>(line, pos, freq). unat freq)")
  show "wf (measure (\<lambda>(line :: string, pos :: int, freq :: 32 word). unat freq))" by simp
next
  fix line line' :: string and pos :: int and freq :: "32 word"
  assume "freq \<noteq> 0"
  then have "0 < unat freq" by (simp add: unat_gt_0)
  then have "unat freq div 10 < unat freq" by simp
  then show "((line', pos - 1, freq div 10), (line, pos, freq))
      \<in> measure (\<lambda>(line, pos, freq). unat freq)"
    by (simp add: unat_div)
qed

text \<open>Lines 630--632: spaces once the digits are out.\<close>

function fill_spaces :: "string \<Rightarrow> int \<Rightarrow> error + (string \<times> int)" where
  "fill_spaces line pos =
     (if pos \<ge> 0 then
        (case put line pos CHR '' '' of
           Inl e \<Rightarrow> Inl e
         | Inr line' \<Rightarrow> fill_spaces line' (pos - 1))
      else Inr (line, pos))"
  by pat_completeness auto
termination
  by (relation "measure (\<lambda>(line, pos). nat (pos + 1))") auto

declare digits_right.simps [simp del] digits_left.simps [simp del] fill_spaces.simps [simp del]

definition c_str :: "string \<Rightarrow> string" where
  "c_str line = takeWhile (\<lambda>c. c \<noteq> CHR 0x00) line"

text \<open>Lines 600--634, once the range \<open>r\<close> is chosen.\<close>

definition format_line :: "range_entry \<Rightarrow> 32 word \<Rightarrow> error + string" where
  "format_line r freq =
     (let line = (replicate 9 (CHR 0x00))[5 := prefix r, 6 := CHR ''H'', 7 := CHR ''z'', 8 := CHR 0x00]
      in case udiv freq (ucast (divisor r)) of Inl e \<Rightarrow> Inl e | Inr freq1 \<Rightarrow>
         case digits_right (point r) line (lsd r) freq1 of Inl e \<Rightarrow> Inl e | Inr (line1, pos1, freq2) \<Rightarrow>
         case put line1 pos1 CHR ''.'' of Inl e \<Rightarrow> Inl e | Inr line2 \<Rightarrow>
         case put line2 (pos1 - 1) (digit freq2) of Inl e \<Rightarrow> Inl e | Inr line3 \<Rightarrow>
         case digits_left line3 (pos1 - 2) (freq2 div 10) of Inl e \<Rightarrow> Inl e | Inr (line4, pos4, freq4) \<Rightarrow>
         case fill_spaces line4 pos4 of Inl e \<Rightarrow> Inl e | Inr (line5, pos5) \<Rightarrow>
         Inr (c_str line5))"

definition display_freq :: "32 word \<Rightarrow> display \<Rightarrow> error + display" where
  "display_freq freq d =
     (if freq = prev_freq d then Inr d
      else
        (let d1 = d\<lparr>prev_freq := freq\<rparr>
         in if freq = 0 then Inr (show_line ''---'' d1)
            else
              (case select_band freq (curr_range d1) of
                 Inl e \<Rightarrow> Inl e
               | Inr j \<Rightarrow>
                   (case format_line (range_tab ! unat j) freq of
                      Inl e \<Rightarrow> Inl e
                    | Inr line \<Rightarrow> Inr (show_line line (d1\<lparr>curr_range := j\<rparr>))))))"

definition display_measurement :: "32 word \<Rightarrow> 8 word \<Rightarrow> tick_t \<Rightarrow> display \<Rightarrow> error + display" where
  "display_measurement F_CPU n ticks d =
     (if ticks = 0 then Inr (show_line ''---'' d)
      else
        (case freq_dHz F_CPU n ticks of
           Inl e \<Rightarrow> Inl e
         | Inr f \<Rightarrow> display_freq f d))"

subsection \<open>Counters and the shared state\<close>

record counter =
  period :: tick_t
  log2num_events :: "8 word"
  first_time :: "8 word"
  current_log2num_events :: "8 word"
  prev_ticks :: tick_t

text \<open>The pointer \<open>current\<close> is either \<open>&slow_cnt\<close> or \<open>&fast_cnt\<close>.\<close>

datatype mode = Slow | Fast

definition WD_TOP :: "8 word" where
  "WD_TOP = 4"

text \<open>
  Bit numbers of the ATtiny84A from \<open>avr/io.h\<close>, which is not part of the repository:
  \<open>TOV0\<close> is bit 0 of \<open>TIFR0\<close> and \<open>INT0\<close> is bit 6 of \<open>GIMSK\<close>.
\<close>

definition TOV0 :: nat where
  "TOV0 = 0"

definition INT0 :: nat where
  "INT0 = 6"

definition BV :: "nat \<Rightarrow> 8 word" where
  "BV b = push_bit b 1"

text \<open>
  The state holds the static variables of main.c and the hardware registers that the
  interrupt routines read or write. \<open>fast_wd\<close> is a \<open>signed char\<close>. The registers that
  only configure the timers (\<open>TCCR0B\<close>, \<open>TIMSK0\<close>, \<open>MCUCR\<close>, \<open>TCCR1A\<close>, \<open>TCCR1B\<close>,
  \<open>TIMSK1\<close>, \<open>TIFR1\<close>) are written once at start-up and are left out.
  \<open>cmp_reg_args\<close> is a history variable that is not in the program: the arguments of
  all calls of \<open>set_timer_cmp_reg\<close> so far, latest first.
\<close>

record state =
  slow_cnt :: counter
  fast_cnt :: counter
  current :: mode
  fast_wd :: "8 word"
  timer0_overflow_count :: "32 word"
  counter_high :: "8 word"
  cmp_high :: "8 word"
  TCNT0 :: "8 word"
  TIFR0 :: "8 word"
  GIMSK :: "8 word"
  OCR1A :: "16 word"
  TCNT1 :: "16 word"
  cmp_reg_args :: "8 word list"

subsection \<open>Time keeping\<close>

definition TIM0_OVF_vect :: "state \<Rightarrow> state" where
  "TIM0_OVF_vect s = s\<lparr>timer0_overflow_count := timer0_overflow_count s + 1\<rparr>"

text \<open>\<open>cli_ticks\<close> returns the number of ticks together with the state it leaves.\<close>

definition cli_ticks :: "state \<Rightarrow> tick_t \<times> state" where
  "cli_ticks s =
     (let m = timer0_overflow_count s;
          t = TCNT0 s;
          m = (if TIFR0 s AND BV TOV0 \<noteq> 0 \<and> t < 255 then m + 1 else m)
      in (push_bit 8 m OR ucast t, s))"

subsection \<open>Event counting\<close>

text \<open>
  \<open>(1UL << log2ne) - 1\<close> is computed in 32 bits and stored in the 16-bit register
  \<open>OCR1A\<close>; \<open>(1 << (log2ne-16)) - 1\<close> is computed in 16-bit \<open>int\<close> and stored in the
  8-bit \<open>cmp_high\<close>. A shift by the width of the type or more is undefined in C; the
  exponent never exceeds 20, as is proved below, so the shifts are by at most 16 and
  4 bits.
\<close>

definition set_timer_cmp_reg :: "8 word \<Rightarrow> state \<Rightarrow> state" where
  "set_timer_cmp_reg log2ne s =
     (let s = s\<lparr>cmp_reg_args := log2ne # cmp_reg_args s\<rparr>
      in if log2ne \<le> 16 then
           s\<lparr>OCR1A := ucast (push_bit (unat log2ne) (1 :: 32 word) - 1), cmp_high := 0\<rparr>
         else
           s\<lparr>OCR1A := 0xffff,
             cmp_high := ucast (push_bit (unat log2ne - 16) (1 :: 16 word) - 1),
             counter_high := 0\<rparr>)"

text \<open>
  The static initialisers of main.c and the reset values of the registers. \<open>current\<close> is
  not initialised statically; \<open>init_event_counting\<close> sets it before interrupts are
  enabled.
\<close>

definition startup_state :: state where
  "startup_state =
     \<lparr> slow_cnt = \<lparr>period = MAX_PERIOD, log2num_events = 0, first_time = 1,
                    current_log2num_events = 0, prev_ticks = 0\<rparr>,
       fast_cnt = \<lparr>period = MAX_PERIOD, log2num_events = 0, first_time = 1,
                    current_log2num_events = 1, prev_ticks = 0\<rparr>,
       current = Slow, fast_wd = WD_TOP, timer0_overflow_count = 0,
       counter_high = 0, cmp_high = 0,
       TCNT0 = 0, TIFR0 = 0, GIMSK = 0, OCR1A = 0, TCNT1 = 0, cmp_reg_args = [] \<rparr>"

definition init_event_counting :: "state \<Rightarrow> state" where
  "init_event_counting s =
     (let s = s\<lparr>GIMSK := BV INT0\<rparr>;
          s = set_timer_cmp_reg (current_log2num_events (fast_cnt s)) s
      in s\<lparr>TCNT1 := 0, current := Slow\<rparr>)"

definition init_state :: state where
  "init_state = init_event_counting startup_state"

text \<open>The interrupt service routine for the slow counting mode, lines 292--330.\<close>

definition EXT_INT0_vect :: "state \<Rightarrow> state" where
  "EXT_INT0_vect s0 =
     (let (cs, s) = cli_ticks s0
      in if first_time (slow_cnt s) \<noteq> 0 then
           s\<lparr>slow_cnt := (slow_cnt s)\<lparr>first_time := 0, prev_ticks := cs\<rparr>\<rparr>
         else
           (let per = cs - prev_ticks (slow_cnt s);
                s = s\<lparr>slow_cnt := (slow_cnt s)\<lparr>period := per, prev_ticks := cs\<rparr>\<rparr>
            in if per < 100 then
                 (let s = s\<lparr>GIMSK := 0\<rparr>;
                      s = s\<lparr>fast_cnt := (fast_cnt s)\<lparr>period := MAX_PERIOD, first_time := 1,
                              current_log2num_events := 1, prev_ticks := cs\<rparr>\<rparr>;
                      s = s\<lparr>OCR1A := push_bit (unat (current_log2num_events (fast_cnt s))) 1 - 1\<rparr>
                  in s\<lparr>TCNT1 := 0, current := Fast\<rparr>)
               else s))"

text \<open>The forced switch to slow mode, lines 336--348.\<close>

definition slow_mode :: "state \<Rightarrow> state" where
  "slow_mode s =
     (let s = s\<lparr>GIMSK := BV INT0\<rparr>;
          s = s\<lparr>slow_cnt := (slow_cnt s)\<lparr>first_time := 1, period := MAX_PERIOD\<rparr>\<rparr>;
          s = s\<lparr>current := Slow\<rparr>;
          s = s\<lparr>fast_cnt := (fast_cnt s)\<lparr>first_time := 1, current_log2num_events := 1\<rparr>\<rparr>;
          s = set_timer_cmp_reg (current_log2num_events (fast_cnt s)) s
      in s\<lparr>TCNT1 := 0\<rparr>)"

text \<open>
  The two \<open>do ... while\<close> statements of the fast mode routine, lines 421--424 and 433--436,
  on the local variables \<open>log2ne\<close> (a \<open>uint8_t\<close>) and \<open>period\<close>, here \<open>per\<close>.
\<close>

function count_more :: "8 word \<Rightarrow> tick_t \<Rightarrow> 8 word \<times> tick_t" where
  "count_more log2ne per =
     (let log2ne = log2ne + 1; per = per * 2
      in if per < MIN_PERIOD \<and> log2ne < 20 then count_more log2ne per
         else (log2ne, per))"
  by pat_completeness auto
termination
proof (relation "measure (\<lambda>(log2ne :: 8 word, per :: tick_t). 20 - unat (log2ne + 1))")
  show "wf (measure (\<lambda>(log2ne :: 8 word, per :: tick_t). 20 - unat (log2ne + 1)))" by simp
next
  fix log2ne x :: "8 word" and per xa :: tick_t
  assume x: "x = log2ne + 1" and "xa = per * 2" and c: "xa < MIN_PERIOD \<and> x < 20"
  from c have b: "unat x < 20" by (simp add: word_less_nat_alt)
  then have "unat (x + 1) = unat x + 1" by (simp add: unat_word_ariths)
  with b have "20 - unat (x + 1) < 20 - unat x" by simp
  then show "((x, xa), (log2ne, per)) \<in> measure (\<lambda>(log2ne, per). 20 - unat (log2ne + 1))"
    unfolding x by simp
qed

function count_fewer :: "8 word \<Rightarrow> tick_t \<Rightarrow> 8 word \<times> tick_t" where
  "count_fewer log2ne per =
     (let log2ne = log2ne - 1; per = per div 2
      in if per > MIN_PERIOD * 3 \<and> log2ne > 1 then count_fewer log2ne per
         else (log2ne, per))"
  by pat_completeness auto
termination
proof (relation "measure (\<lambda>(log2ne :: 8 word, per :: tick_t). unat per)")
  show "wf (measure (\<lambda>(log2ne :: 8 word, per :: tick_t). unat per))" by simp
next
  fix log2ne x :: "8 word" and per xa :: tick_t
  assume "x = log2ne - 1" and xa: "xa = per div 2" and c: "xa > MIN_PERIOD * 3 \<and> x > 1"
  from c have "0 < unat (per div 2)"
    by (simp add: xa MIN_PERIOD_def word_less_nat_alt)
  then have "unat per div 2 < unat per" by (simp add: unat_div)
  then show "((x, xa), (log2ne, per)) \<in> measure (\<lambda>(log2ne, per). unat per)"
    by (simp add: xa unat_div)
qed

declare count_more.simps [simp del] count_fewer.simps [simp del]

text \<open>
  Lines 417--439: adjust the number of events counted in each period. The result is the
  local \<open>log2ne\<close> and \<open>period\<close> and the new state.
\<close>

definition adjust_events :: "8 word \<Rightarrow> tick_t \<Rightarrow> state \<Rightarrow> 8 word \<times> tick_t \<times> state" where
  "adjust_events log2ne per s =
     (if per < MIN_PERIOD \<and> log2ne < 20 then
        (let (log2ne, per) = count_more log2ne per;
             s = set_timer_cmp_reg log2ne s;
             s = s\<lparr>GIMSK := 0\<rparr>;
             s = s\<lparr>current := Fast\<rparr>
         in (log2ne, per, s\<lparr>fast_cnt := (fast_cnt s)\<lparr>current_log2num_events := log2ne\<rparr>\<rparr>))
      else if per > MIN_PERIOD * 3 \<and> log2ne > 1 then
        (let (log2ne, per) = count_fewer log2ne per;
             s = set_timer_cmp_reg log2ne s
         in (log2ne, per, s\<lparr>fast_cnt := (fast_cnt s)\<lparr>current_log2num_events := log2ne\<rparr>\<rparr>))
      else (log2ne, per, s))"

text \<open>Lines 445--462: check whether the mode should change.\<close>

definition change_mode :: "8 word \<Rightarrow> tick_t \<Rightarrow> tick_t \<Rightarrow> state \<Rightarrow> state" where
  "change_mode log2ne per ticks s =
     (if current s = Fast then
        (if per > MIN_PERIOD * 3 \<and> log2ne = 1 then
           (let s = s\<lparr>GIMSK := BV INT0\<rparr>;
                s = s\<lparr>slow_cnt := (slow_cnt s)\<lparr>period := per div 2, prev_ticks := ticks,
                        first_time := 1\<rparr>\<rparr>
            in s\<lparr>current := Slow\<rparr>)
         else s)
      else if period (slow_cnt s) < MIN_PERIOD then
        (let s = s\<lparr>GIMSK := 0\<rparr> in s\<lparr>current := Fast\<rparr>)
      else s)"

text \<open>The interrupt service routine for the fast counting mode, lines 380--463.\<close>

definition TIM1_COMPA_vect :: "state \<Rightarrow> state" where
  "TIM1_COMPA_vect s0 =
     (let (ticks, s) = cli_ticks s0;
          s = s\<lparr>fast_wd := WD_TOP\<rparr>;
          old_high = counter_high s;
          s = s\<lparr>counter_high := old_high + 1\<rparr>
      in if old_high \<noteq> cmp_high s then s
         else
           (let s = s\<lparr>counter_high := 0\<rparr>
            in if first_time (fast_cnt s) \<noteq> 0 then
                 s\<lparr>fast_cnt := (fast_cnt s)\<lparr>first_time := 0, prev_ticks := ticks\<rparr>\<rparr>
               else
                 (let log2ne = current_log2num_events (fast_cnt s);
                      s = s\<lparr>fast_cnt := (fast_cnt s)\<lparr>log2num_events := log2ne\<rparr>\<rparr>;
                      per = ticks - prev_ticks (fast_cnt s);
                      s = s\<lparr>fast_cnt := (fast_cnt s)\<lparr>period := per\<rparr>\<rparr>;
                      s = s\<lparr>fast_cnt := (fast_cnt s)\<lparr>prev_ticks := ticks\<rparr>\<rparr>;
                      (log2ne, per, s) = adjust_events log2ne per s
                  in change_mode log2ne per ticks s)))"

subsection \<open>The polling loop\<close>

text \<open>
  Lines 129--136: \<open>fast_wd-- < 0\<close> compares the value before the decrement, as a signed
  number, and the decrement is done whatever \<open>current\<close> is.
\<close>

definition main_watchdog :: "state \<Rightarrow> state" where
  "main_watchdog s =
     (let old_wd = fast_wd s;
          s = s\<lparr>fast_wd := old_wd - 1\<rparr>
      in if old_wd <s 0 \<and> current s = Fast then slow_mode (s\<lparr>fast_wd := WD_TOP\<rparr>)
         else s)"

text \<open>
  One iteration of the loop of \<open>main\<close>, lines 111--139, when no interrupt is served
  while it runs: the snapshot of the active counter, the watchdog, the display.
\<close>

definition active :: "state \<Rightarrow> counter" where
  "active s = (case current s of Slow \<Rightarrow> slow_cnt s | Fast \<Rightarrow> fast_cnt s)"

definition main_iteration :: "32 word \<Rightarrow> state \<times> display \<Rightarrow> error + state \<times> display" where
  "main_iteration F_CPU sd =
     (let (s, d) = sd;
          n = log2num_events (active s);
          p = period (active s);
          s = main_watchdog s
      in case display_measurement F_CPU n p d of
           Inl e \<Rightarrow> Inl e
         | Inr d \<Rightarrow> Inr (s, d))"

text \<open>
  The states the program reaches from \<open>init_state\<close>: the hardware changes its counters and
  flags at any time, each interrupt routine runs as a whole, and the steps of the polling
  loop on the shared state (the write of \<open>fast_wd\<close> and \<open>slow_mode\<close>) may have interrupts
  served between them.
\<close>

inductive reachable :: "state \<Rightarrow> bool" where
  reach_init: "reachable init_state"
| reach_hw: "reachable s \<Longrightarrow> reachable (s\<lparr>TCNT0 := a, TIFR0 := b, TCNT1 := c\<rparr>)"
| reach_ovf: "reachable s \<Longrightarrow> reachable (TIM0_OVF_vect s)"
| reach_int0: "reachable s \<Longrightarrow> reachable (EXT_INT0_vect s)"
| reach_compa: "reachable s \<Longrightarrow> reachable (TIM1_COMPA_vect s)"
| reach_wd: "reachable s \<Longrightarrow> reachable (s\<lparr>fast_wd := w\<rparr>)"
| reach_slow_mode: "reachable s \<Longrightarrow> reachable (slow_mode s)"
| reach_poll: "reachable s \<Longrightarrow> reachable (main_watchdog s)"

subsection \<open>Example states\<close>

text \<open>
  States used to run the routines on concrete inputs: after a first edge with the hardware
  counter advanced to 50 and to 200 ticks, and after two edges at the same tick, which
  makes the fast counter the active one; after a first fast mode interrupt with the
  hardware counter advanced to 100 ticks.
\<close>

definition edge_at_50 :: state where
  "edge_at_50 = (EXT_INT0_vect init_state)\<lparr>TCNT0 := 50\<rparr>"

definition second_edge_at_200 :: state where
  "second_edge_at_200 = (EXT_INT0_vect init_state)\<lparr>TCNT0 := 200\<rparr>"

definition fast_just_activated :: state where
  "fast_just_activated = EXT_INT0_vect (EXT_INT0_vect init_state)"

definition fast_period_100 :: state where
  "fast_period_100 = (TIM1_COMPA_vect init_state)\<lparr>TCNT0 := 100\<rparr>"



subsection \<open>The range of the exponent\<close>

text \<open>
  The exponent for the next period of the fast counter, and every argument that
  \<open>set_timer_cmp_reg\<close> has been called with, is between 1 and 20.
\<close>

definition exponent_inv :: "state \<Rightarrow> bool" where
  "exponent_inv s =
     (1 \<le> current_log2num_events (fast_cnt s) \<and> current_log2num_events (fast_cnt s) \<le> 20 \<and>
      list_all (\<lambda>a. 1 \<le> a \<and> a \<le> 20) (cmp_reg_args s))"

subsection \<open>The display and its static variables\<close>

text \<open>
  Whenever \<open>prev_line\<close> is the placeholder, the display shows it, and \<open>prev_freq\<close> is 0
  only when the last line was the placeholder.
\<close>

definition display_inv :: "display \<Rightarrow> bool" where
  "display_inv d =
     ((prev_line d = ''---'' \<longrightarrow> lcd d = ''---     '') \<and>
      (prev_freq d = 0 \<longrightarrow> prev_line d = ''---''))"


section \<open>Properties\<close>

subsection \<open>The frequency computation\<close>

text \<open>
  \<open>round_half_up a b\<close> is the quotient \<open>a / b\<close> of the rationals rounded half up, and
  adding \<open>b/2\<close> before the integer division computes it.
\<close>

lemma round_half_up_floor:
  assumes "0 < b"
  shows "int (round_half_up a b) = \<lfloor>real a / real b + 1 / 2\<rfloor>"
proof -
  have "real a / real b + 1 / 2 = real (2 * a + b) / real (2 * b)"
    using assms by (simp add: field_simps)
  then show ?thesis
    unfolding round_half_up_def by (simp only: floor_divide_of_nat_eq)
qed

lemma round_half_up_code: "(a + b div 2) div b = round_half_up a b"
  unfolding round_half_up_def
  by (simp add: div_mult2_eq)

lemma unat_K32:
  assumes "10 * unat (F_CPU :: 32 word) < 2 ^ 32"
  shows "unat (10 * F_CPU div 64) = tick_frequency_constant (unat F_CPU)"
  using assms by (simp add: unat_div unat_word_ariths tick_frequency_constant_def)

lemma unat_K64:
  "unat (10 * (ucast (F_CPU :: 32 word) :: 64 word) div 64) = tick_frequency_constant (unat F_CPU)"
proof -
  have "unat F_CPU < 2 ^ 32" using unsigned_less [of F_CPU] by simp
  have u: "unat (ucast F_CPU :: 64 word) = unat F_CPU"
    using \<open>unat F_CPU < 2 ^ 32\<close> by (simp add: unsigned_ucast_eq take_bit_nat_eq_self)
  from \<open>unat F_CPU < 2 ^ 32\<close> have "10 * unat F_CPU < 2 ^ 64" by simp
  then show ?thesis
    by (simp add: unat_div unat_word_ariths tick_frequency_constant_def u)
qed

lemma unat_push_bit32:
  assumes "unat (w :: 32 word) * 2 ^ m < 2 ^ 32"
  shows "unat (push_bit m w) = unat w * 2 ^ m"
proof -
  have "unat (push_bit m w) = take_bit 32 (push_bit m (unat w))"
    by (simp only: unsigned_push_bit_eq) simp
  also have "\<dots> = unat w * 2 ^ m"
    using assms by (simp add: take_bit_nat_eq_self push_bit_eq_mult)
  finally show ?thesis .
qed

lemma unat_push_bit64:
  assumes "unat (w :: 64 word) * 2 ^ m < 2 ^ 64"
  shows "unat (push_bit m w) = unat w * 2 ^ m"
proof -
  have "unat (push_bit m w) = take_bit 64 (push_bit m (unat w))"
    by (simp only: unsigned_push_bit_eq) simp
  also have "\<dots> = unat w * 2 ^ m"
    using assms by (simp add: take_bit_nat_eq_self push_bit_eq_mult)
  finally show ?thesis .
qed

lemma unat_ucast_32_64: "unat (ucast (w :: 32 word) :: 64 word) = unat w"
proof -
  have "unat w < 2 ^ 32" using unsigned_less [of w] by simp
  then show ?thesis by (simp add: unsigned_ucast_eq take_bit_nat_eq_self)
qed

lemma freq_dHz_narrow:
  assumes t: "ticks \<noteq> 0" and n: "n < 11" and f: "10 * unat F_CPU < 2 ^ 32"
    and fit: "tick_frequency_constant (unat F_CPU) * 2 ^ unat n + unat ticks div 2 < 2 ^ 32"
  shows "freq_dHz F_CPU n ticks = Inr (of_nat (freq_dHz_spec (unat F_CPU) (unat n) (unat ticks)))"
proof -
  let ?K = "tick_frequency_constant (unat F_CPU)"
  have k: "unat (10 * F_CPU div 64) = ?K" by (rule unat_K32 [OF f])
  have "?K * 2 ^ unat n < 2 ^ 32" using fit by simp
  then have s: "unat (push_bit (unat n) (10 * F_CPU div 64)) = ?K * 2 ^ unat n"
    using unat_push_bit32 [of "10 * F_CPU div 64" "unat n"] by (simp add: k)
  have h: "unat (ticks div 2) = unat ticks div 2" by (simp add: unat_div)
  have a: "unat (push_bit (unat n) (10 * F_CPU div 64) + ticks div 2) = ?K * 2 ^ unat n + unat ticks div 2"
    using fit by (simp add: unat_word_ariths s h)
  have "unat ((push_bit (unat n) (10 * F_CPU div 64) + ticks div 2) div ticks)
        = freq_dHz_spec (unat F_CPU) (unat n) (unat ticks)"
    by (simp only: unat_div a round_half_up_code freq_dHz_spec_def)
  then have "(push_bit (unat n) (10 * F_CPU div 64) + ticks div 2) div ticks
        = of_nat (freq_dHz_spec (unat F_CPU) (unat n) (unat ticks))"
    by (metis of_nat_unat ucast_id)
  then show ?thesis using t n by (simp add: freq_dHz_def udiv_def)
qed

lemma freq_dHz_wide:
  assumes t: "ticks \<noteq> 0" and n: "11 \<le> n" "n \<le> 20"
    and fit: "freq_dHz_spec (unat F_CPU) (unat n) (unat ticks) < 2 ^ 32"
  shows "freq_dHz F_CPU n ticks = Inr (of_nat (freq_dHz_spec (unat F_CPU) (unat n) (unat ticks)))"
proof -
  let ?K = "tick_frequency_constant (unat F_CPU)"
  let ?K64 = "10 * (ucast F_CPU :: 64 word) div 64"
  have k: "unat ?K64 = ?K" by (rule unat_K64)
  have "unat F_CPU < 2 ^ 32" using unsigned_less [of F_CPU] by simp
  then have kb: "?K < 2 ^ 32" by (simp add: tick_frequency_constant_def)
  have nb: "unat n \<le> 20" using n(2) by (simp add: word_le_nat_alt)
  have "(2::nat) ^ unat n \<le> 2 ^ 20" using nb by (rule power_increasing) simp
  then have "?K * 2 ^ unat n \<le> 2 ^ 32 * 2 ^ 20"
    using kb by (intro mult_mono) simp_all
  then have pb: "?K * 2 ^ unat n < 2 ^ 53" by simp
  then have s: "unat (push_bit (unat n) ?K64) = ?K * 2 ^ unat n"
    using unat_push_bit64 [of ?K64 "unat n"] by (simp add: k)
  have tb: "unat ticks < 2 ^ 32" using unsigned_less [of ticks] by simp
  have h: "unat (ucast (ticks div 2) :: 64 word) = unat ticks div 2"
    by (simp add: unat_ucast_32_64 unat_div)
  have a: "unat (push_bit (unat n) ?K64 + ucast (ticks div 2)) = ?K * 2 ^ unat n + unat ticks div 2"
    using pb tb by (simp add: unat_word_ariths s h)
  have q: "unat ((push_bit (unat n) ?K64 + ucast (ticks div 2)) div ucast ticks)
        = freq_dHz_spec (unat F_CPU) (unat n) (unat ticks)"
    by (simp only: unat_div a unat_ucast_32_64 round_half_up_code freq_dHz_spec_def)
  have "unat (ucast ((push_bit (unat n) ?K64 + ucast (ticks div 2)) div ucast ticks) :: 32 word)
        = freq_dHz_spec (unat F_CPU) (unat n) (unat ticks)"
    using fit by (simp add: unsigned_ucast_eq q take_bit_nat_eq_self)
  then have r: "(ucast ((push_bit (unat n) ?K64 + ucast (ticks div 2)) div ucast ticks) :: 32 word)
        = of_nat (freq_dHz_spec (unat F_CPU) (unat n) (unat ticks))"
    by (metis of_nat_unat ucast_id)
  have t64: "(ucast ticks :: 64 word) \<noteq> 0"
    using t by (metis unat_ucast_32_64 unat_eq_zero)
  have n1: "\<not> n < 11" using n(1) by simp
  have n2: "\<not> 64 \<le> n" using n(2) by (simp add: word_le_nat_alt)
  show ?thesis
    unfolding freq_dHz_def Let_def udiv_def using t64 n1 n2 r by simp
qed

text \<open>
  C1, as amended. For \<open>ticks > 0\<close> and an exponent \<open>n\<close> in \<open>[0,20]\<close>, the frequency
  computed by \<open>display_measurement\<close> is exactly \<open>K * 2^n / ticks\<close> rounded half up,
  \<open>K = 10 * F_CPU / 64\<close>, provided that \<open>10 * F_CPU\<close> fits in 32 bits, that for
  \<open>n < 11\<close> the sum \<open>K * 2^n + ticks/2\<close> fits in 32 bits, and that the rounded quotient
  fits in the 32-bit result.
\<close>

theorem freq_dHz_round_half_up:
  assumes "ticks \<noteq> 0" and "n \<le> 20" and "10 * unat F_CPU < 2 ^ 32"
    and "n < 11 \<longrightarrow>
         tick_frequency_constant (unat F_CPU) * 2 ^ unat n + unat ticks div 2 < 2 ^ 32"
    and "freq_dHz_spec (unat F_CPU) (unat n) (unat ticks) < 2 ^ 32"
  shows "freq_dHz F_CPU n ticks = Inr (of_nat (freq_dHz_spec (unat F_CPU) (unat n) (unat ticks)))"
proof (cases "n < 11")
  case True
  with assms show ?thesis by (simp add: freq_dHz_narrow)
next
  case False
  then have "11 \<le> n" by simp
  with assms show ?thesis by (simp add: freq_dHz_wide)
qed

theorem freq_dHz_round_half_up_witness:
  "freq_dHz F_CPU_20MHz 10 16000 = Inr 200000 \<and> freq_dHz F_CPU_20MHz 11 16000 = Inr 400000"
  using freq_dHz_round_half_up [of 16000 10 F_CPU_20MHz]
    freq_dHz_round_half_up [of 16000 11 F_CPU_20MHz]
  by (simp add: F_CPU_20MHz_def freq_dHz_spec_def tick_frequency_constant_def round_half_up_def)

text \<open>
  At 20 MHz, exponent 10 and \<open>ticks = 0xffffffff\<close> the 32-bit sum wraps around and the
  result is 0 where the exact value is 1; at exponent 11 and \<open>ticks = 1\<close> the exact value
  6400000000 does not fit in the 32-bit result.
\<close>

theorem freq_dHz_exact_counterexample:
  "freq_dHz F_CPU_20MHz 10 0xffffffff = Inr 0 \<and>
   freq_dHz_spec (unat F_CPU_20MHz) 10 (unat (0xffffffff :: 32 word)) = 1 \<and>
   freq_dHz F_CPU_20MHz 11 1 = Inr 2105032704 \<and>
   freq_dHz_spec (unat F_CPU_20MHz) 11 (unat (1 :: 32 word)) = 6400000000"
  by (simp add: F_CPU_20MHz_def freq_dHz_def udiv_def freq_dHz_spec_def
      tick_frequency_constant_def round_half_up_def)


subsection \<open>Time keeping\<close>

lemma TOV0_flag: "(w AND BV TOV0 \<noteq> 0) = bit (w :: 8 word) TOV0"
  by (simp add: BV_def TOV0_def and_one_eq bit_0 mod_2_eq_odd)

text \<open>
  C6. \<open>cli_ticks\<close> returns \<open>(m' * 256) | t\<close>, where \<open>t\<close> is the hardware counter and
  \<open>m'\<close> is the software overflow count \<open>m\<close> plus one exactly when the overflow flag
  \<open>TOV0\<close> is set and \<open>t < 255\<close>, and \<open>m\<close> otherwise; it leaves the state as it is.
  The overflow interrupt routine only adds one to the software overflow count.
\<close>

theorem cli_ticks_overflow_race:
  "cli_ticks s =
     ((if bit (TIFR0 s) TOV0 \<and> TCNT0 s < 255 then timer0_overflow_count s + 1
       else timer0_overflow_count s) * 256 OR ucast (TCNT0 s), s) \<and>
   TIM0_OVF_vect s = s\<lparr>timer0_overflow_count := timer0_overflow_count s + 1\<rparr>"
  by (simp add: cli_ticks_def TIM0_OVF_vect_def TOV0_flag push_bit_eq_mult Let_def)

theorem cli_ticks_overflow_race_witness:
  "fst (cli_ticks (init_state\<lparr>timer0_overflow_count := 7, TCNT0 := 3, TIFR0 := 1\<rparr>)) = 2051 \<and>
   fst (cli_ticks (init_state\<lparr>timer0_overflow_count := 7, TCNT0 := 255, TIFR0 := 1\<rparr>)) = 2047 \<and>
   fst (cli_ticks (init_state\<lparr>timer0_overflow_count := 7, TCNT0 := 3, TIFR0 := 0\<rparr>)) = 1795"
  using cli_ticks_overflow_race [of "init_state\<lparr>timer0_overflow_count := 7, TCNT0 := 3, TIFR0 := 1\<rparr>"]
    cli_ticks_overflow_race [of "init_state\<lparr>timer0_overflow_count := 7, TCNT0 := 255, TIFR0 := 1\<rparr>"]
    cli_ticks_overflow_race [of "init_state\<lparr>timer0_overflow_count := 7, TCNT0 := 3, TIFR0 := 0\<rparr>"]
  by (simp add: TOV0_def)

subsection \<open>The slow counting mode\<close>

lemma cli_ticks_state: "snd (cli_ticks s) = s"
  by (simp add: cli_ticks_def Let_def)

text \<open>
  C4. When the slow mode routine computes a period below 100 ticks, then on return the
  fast counter has the period \<open>MAX_PERIOD\<close>, the exponent 1 for its next period, is
  marked as waiting for its first event and starts its period at the current tick; the
  compare register \<open>OCR1A\<close> holds \<open>2^1 - 1\<close>, the hardware counter \<open>TCNT1\<close> is 0, the
  edge interrupt is disabled and the fast counter is the active one.
\<close>

theorem EXT_INT0_emergency_switch:
  assumes "first_time (slow_cnt s) = 0"
    and "fst (cli_ticks s) - prev_ticks (slow_cnt s) < 100"
  shows "period (fast_cnt (EXT_INT0_vect s)) = MAX_PERIOD \<and>
         current_log2num_events (fast_cnt (EXT_INT0_vect s)) = 1 \<and>
         first_time (fast_cnt (EXT_INT0_vect s)) = 1 \<and>
         prev_ticks (fast_cnt (EXT_INT0_vect s)) = fst (cli_ticks s) \<and>
         OCR1A (EXT_INT0_vect s) = 2 ^ 1 - 1 \<and>
         TCNT1 (EXT_INT0_vect s) = 0 \<and>
         GIMSK (EXT_INT0_vect s) = 0 \<and>
         current (EXT_INT0_vect s) = Fast \<and>
         period (slow_cnt (EXT_INT0_vect s)) = fst (cli_ticks s) - prev_ticks (slow_cnt s)"
  using assms by (simp add: EXT_INT0_vect_def cli_ticks_def Let_def)

theorem EXT_INT0_emergency_switch_witness:
  "current edge_at_50 = Slow \<and>
   period (slow_cnt (EXT_INT0_vect edge_at_50)) = 50 \<and>
   current (EXT_INT0_vect edge_at_50) = Fast \<and>
   GIMSK (EXT_INT0_vect edge_at_50) = 0 \<and>
   current_log2num_events (fast_cnt (EXT_INT0_vect edge_at_50)) = 1"
proof -
  have f: "first_time (slow_cnt edge_at_50) = 0"
    by (simp add: edge_at_50_def EXT_INT0_vect_def cli_ticks_def init_state_def
        init_event_counting_def set_timer_cmp_reg_def startup_state_def Let_def)
  have p: "fst (cli_ticks edge_at_50) - prev_ticks (slow_cnt edge_at_50) = 50"
    by (simp add: edge_at_50_def EXT_INT0_vect_def cli_ticks_def init_state_def
        init_event_counting_def set_timer_cmp_reg_def startup_state_def Let_def)
  have c: "current edge_at_50 = Slow"
    by (simp add: edge_at_50_def EXT_INT0_vect_def cli_ticks_def init_state_def
        init_event_counting_def set_timer_cmp_reg_def startup_state_def Let_def)
  from EXT_INT0_emergency_switch [OF f] p c show ?thesis by simp
qed


text \<open>
  C8. Two edges are given to the slow mode routine, starting from the initial state of
  \<open>slow_cnt\<close> (waiting for its first edge, period \<open>MAX_PERIOD\<close>, exponent 0), the tick
  clock reading \<open>P\<close> ticks more at the second edge than at the first. After the first edge
  the period is still \<open>MAX_PERIOD\<close>; after the second it is \<open>P\<close>; the exponent stays 0.
\<close>

theorem slow_counter_two_edges:
  assumes "first_time (slow_cnt s0) \<noteq> 0"
    and "period (slow_cnt s0) = MAX_PERIOD"
    and "log2num_events (slow_cnt s0) = 0"
    and "slow_cnt s2 = slow_cnt (EXT_INT0_vect s0)"
    and "fst (cli_ticks s2) = fst (cli_ticks s0) + P"
  shows "period (slow_cnt (EXT_INT0_vect s0)) = MAX_PERIOD \<and>
         log2num_events (slow_cnt (EXT_INT0_vect s0)) = 0 \<and>
         period (slow_cnt (EXT_INT0_vect s2)) = P \<and>
         log2num_events (slow_cnt (EXT_INT0_vect s2)) = 0"
proof -
  let ?cs = "fst (cli_ticks s0)"
  have s1: "slow_cnt (EXT_INT0_vect s0) = (slow_cnt s0)\<lparr>first_time := 0, prev_ticks := ?cs\<rparr>"
    using assms(1) by (simp add: EXT_INT0_vect_def cli_ticks_def Let_def)
  have first: "period (slow_cnt (EXT_INT0_vect s0)) = MAX_PERIOD \<and>
         log2num_events (slow_cnt (EXT_INT0_vect s0)) = 0"
    using assms(2,3) by (simp add: s1)
  have f2: "first_time (slow_cnt s2) = 0" and p2: "prev_ticks (slow_cnt s2) = ?cs"
    and l2: "log2num_events (slow_cnt s2) = 0"
    using assms(3) by (simp_all add: assms(4) s1)
  have "snd (cli_ticks s2) = s2" by (simp add: cli_ticks_def Let_def)
  then have c2: "cli_ticks s2 = (?cs + P, s2)"
    using assms(5) by (metis prod.collapse)
  have "period (slow_cnt (EXT_INT0_vect s2)) = P \<and>
         log2num_events (slow_cnt (EXT_INT0_vect s2)) = 0"
    unfolding EXT_INT0_vect_def c2 using f2 p2 l2 by (simp add: Let_def)
  with first show ?thesis by simp
qed

theorem slow_counter_two_edges_witness:
  "period (slow_cnt (EXT_INT0_vect init_state)) = MAX_PERIOD \<and>
   period (slow_cnt (EXT_INT0_vect second_edge_at_200)) = 200 \<and>
   log2num_events (slow_cnt (EXT_INT0_vect second_edge_at_200)) = 0"
proof -
  have i: "slow_cnt init_state = slow_cnt startup_state" "TCNT0 init_state = 0"
    "TIFR0 init_state = 0" "timer0_overflow_count init_state = 0"
    by (simp_all add: init_state_def init_event_counting_def set_timer_cmp_reg_def
        startup_state_def Let_def)
  have a: "first_time (slow_cnt init_state) \<noteq> 0" "period (slow_cnt init_state) = MAX_PERIOD"
    "log2num_events (slow_cnt init_state) = 0"
    by (simp_all add: i startup_state_def)
  have b: "slow_cnt second_edge_at_200 = slow_cnt (EXT_INT0_vect init_state)"
    by (simp add: second_edge_at_200_def)
  have c: "fst (cli_ticks second_edge_at_200) = fst (cli_ticks init_state) + 200"
    using a(1) by (simp add: second_edge_at_200_def cli_ticks_def EXT_INT0_vect_def i Let_def)
  from slow_counter_two_edges [OF a b c] show ?thesis by simp
qed

subsection \<open>The watchdog of the polling loop\<close>

lemma main_watchdog_idle:
  assumes "\<not> (fast_wd s <s 0)"
  shows "main_watchdog s = s\<lparr>fast_wd := fast_wd s - 1\<rparr>"
  using assms by (simp add: main_watchdog_def Let_def)

lemma main_watchdog_fires:
  assumes "fast_wd s <s 0" and "current s = Fast"
  shows "main_watchdog s = slow_mode (s\<lparr>fast_wd := WD_TOP\<rparr>)"
  using assms by (simp add: main_watchdog_def Let_def)

text \<open>
  C3, what the program does. With \<open>fast_wd\<close> at \<open>WD_TOP = 4\<close>, the fast counter active and
  no fast mode interrupt, four iterations of the polling loop bring \<open>fast_wd\<close> to 0 and
  the fifth to \<open>-1\<close>, the fast counter still being active; \<open>slow_mode\<close> is called in the
  sixth iteration, the first one that finds \<open>fast_wd\<close> negative before its decrement.
  Every fast mode interrupt sets \<open>fast_wd\<close> to \<open>WD_TOP\<close>.
\<close>

theorem watchdog_fires_on_sixth_iteration:
  assumes "fast_wd s = WD_TOP" and "current s = Fast"
  shows "(main_watchdog ^^ 4) s = s\<lparr>fast_wd := 0\<rparr> \<and>
         (main_watchdog ^^ 5) s = s\<lparr>fast_wd := - 1\<rparr> \<and>
         (main_watchdog ^^ 6) s = slow_mode (s\<lparr>fast_wd := WD_TOP\<rparr>) \<and>
         current ((main_watchdog ^^ 4) s) = Fast \<and>
         current ((main_watchdog ^^ 5) s) = Fast \<and>
         current ((main_watchdog ^^ 6) s) = Slow \<and>
         fast_wd (TIM1_COMPA_vect s') = WD_TOP"
proof -
  have r: "fast_wd (TIM1_COMPA_vect s') = WD_TOP"
    by (simp add: TIM1_COMPA_vect_def cli_ticks_def adjust_events_def change_mode_def
        set_timer_cmp_reg_def Let_def split_beta)
  have w1: "main_watchdog s = s\<lparr>fast_wd := 3\<rparr>"
    using assms by (simp add: main_watchdog_idle WD_TOP_def word_sless_alt)
  have w2: "main_watchdog (s\<lparr>fast_wd := 3\<rparr>) = s\<lparr>fast_wd := 2\<rparr>"
    by (simp add: main_watchdog_idle word_sless_alt)
  have w3: "main_watchdog (s\<lparr>fast_wd := 2\<rparr>) = s\<lparr>fast_wd := 1\<rparr>"
    by (simp add: main_watchdog_idle word_sless_alt)
  have w4: "main_watchdog (s\<lparr>fast_wd := 1\<rparr>) = s\<lparr>fast_wd := 0\<rparr>"
    by (simp add: main_watchdog_idle word_sless_alt)
  have w5: "main_watchdog (s\<lparr>fast_wd := 0\<rparr>) = s\<lparr>fast_wd := - 1\<rparr>"
    by (simp add: main_watchdog_idle word_sless_alt)
  have w6: "main_watchdog (s\<lparr>fast_wd := - 1\<rparr>) = slow_mode (s\<lparr>fast_wd := WD_TOP\<rparr>)"
    using assms(2) by (simp add: main_watchdog_fires word_sless_alt)
  have i4: "(main_watchdog ^^ 4) s = s\<lparr>fast_wd := 0\<rparr>"
    by (simp add: numeral_eq_Suc w1 w2 w3 w4)
  have i5: "(main_watchdog ^^ 5) s = s\<lparr>fast_wd := - 1\<rparr>"
    by (simp add: numeral_eq_Suc w1 w2 w3 w4 w5)
  have i6: "(main_watchdog ^^ 6) s = slow_mode (s\<lparr>fast_wd := WD_TOP\<rparr>)"
    by (simp add: numeral_eq_Suc w1 w2 w3 w4 w5 w6)
  have c: "current (slow_mode (s\<lparr>fast_wd := WD_TOP\<rparr>)) = Slow"
    by (simp add: slow_mode_def set_timer_cmp_reg_def Let_def)
  show ?thesis using assms(2) by (simp add: i4 i5 i6 c r)
qed

theorem watchdog_fires_on_sixth_iteration_witness:
  "fast_wd fast_just_activated = WD_TOP \<and> current fast_just_activated = Fast \<and>
   current ((main_watchdog ^^ 4) fast_just_activated) = Fast \<and>
   current ((main_watchdog ^^ 5) fast_just_activated) = Fast \<and>
   current ((main_watchdog ^^ 6) fast_just_activated) = Slow"
proof -
  have a: "fast_wd fast_just_activated = WD_TOP" "current fast_just_activated = Fast"
    by (simp_all add: fast_just_activated_def EXT_INT0_vect_def cli_ticks_def init_state_def
        init_event_counting_def set_timer_cmp_reg_def startup_state_def Let_def)
  from watchdog_fires_on_sixth_iteration [OF a] a show ?thesis by blast
qed


subsection \<open>The fast counting mode\<close>

lemma count_more_again:
  "per * 2 < MIN_PERIOD \<Longrightarrow> log2ne + 1 < 20 \<Longrightarrow>
   count_more log2ne per = count_more (log2ne + 1) (per * 2)"
  by (subst count_more.simps) (simp add: Let_def)

lemma count_more_stop:
  "\<not> (per * 2 < MIN_PERIOD \<and> log2ne + 1 < 20) \<Longrightarrow>
   count_more log2ne per = (log2ne + 1, per * 2)"
  by (subst count_more.simps) (auto simp: Let_def)

lemma count_more_steps:
  "per < MIN_PERIOD \<Longrightarrow> log2ne < 20 \<Longrightarrow>
   \<exists>k. 1 \<le> k \<and> count_more log2ne per = (log2ne + of_nat k, per * 2 ^ k) \<and>
       unat (log2ne + of_nat k) = unat log2ne + k \<and> unat log2ne + k \<le> 20 \<and>
       unat (per * 2 ^ k) = unat per * 2 ^ k \<and>
       (\<forall>j. 1 \<le> j \<and> j < k \<longrightarrow> unat per * 2 ^ j < 10000 \<and> unat log2ne + j < 20) \<and>
       (10000 \<le> unat per * 2 ^ k \<or> unat log2ne + k = 20)"
proof (induction log2ne per rule: count_more.induct)
  case (1 log2ne per)
  have pb: "unat per < 10000"
    using "1.prems"(1) by (simp add: MIN_PERIOD_def word_less_nat_alt)
  have lb: "unat log2ne < 20"
    using "1.prems"(2) by (simp add: word_less_nat_alt)
  have l1: "unat (log2ne + 1) = unat log2ne + 1"
    using lb by (simp add: unat_word_ariths)
  have p2: "unat (per * 2) = unat per * 2"
    using pb by (simp add: unat_word_ariths)
  show ?case
  proof (cases "per * 2 < MIN_PERIOD \<and> log2ne + 1 < 20")
    case True
    then have t1: "per * 2 < MIN_PERIOD" and t2: "log2ne + 1 < 20" by simp_all
    from "1.IH" [OF refl refl True t1 t2]
    obtain k where k1: "1 \<le> k"
      and kc: "count_more (log2ne + 1) (per * 2) = (log2ne + 1 + of_nat k, per * 2 * 2 ^ k)"
      and kl: "unat (log2ne + 1 + of_nat k) = unat (log2ne + 1) + k"
      and kb: "unat (log2ne + 1) + k \<le> 20"
      and kp: "unat (per * 2 * 2 ^ k) = unat (per * 2) * 2 ^ k"
      and kj: "\<forall>j. 1 \<le> j \<and> j < k \<longrightarrow> unat (per * 2) * 2 ^ j < 10000 \<and> unat (log2ne + 1) + j < 20"
      and ke: "10000 \<le> unat (per * 2) * 2 ^ k \<or> unat (log2ne + 1) + k = 20"
      by blast
    have c: "count_more log2ne per = (log2ne + of_nat (Suc k), per * 2 ^ Suc k)"
      using kc by (simp add: count_more_again [OF t1 t2] algebra_simps)
    have l: "unat (log2ne + of_nat (Suc k)) = unat log2ne + Suc k"
    proof -
      have "log2ne + of_nat (Suc k) = log2ne + 1 + of_nat k" by simp
      then show ?thesis using kl by (simp only: l1)
    qed
    have p: "unat (per * 2 ^ Suc k) = unat per * 2 ^ Suc k"
    proof -
      have "per * 2 ^ Suc k = per * 2 * 2 ^ k" by simp
      then show ?thesis using kp by (simp only: p2) simp
    qed
    have j: "\<forall>j. 1 \<le> j \<and> j < Suc k \<longrightarrow> unat per * 2 ^ j < 10000 \<and> unat log2ne + j < 20"
    proof (intro allI impI)
      fix j assume a: "1 \<le> j \<and> j < Suc k"
      show "unat per * 2 ^ j < 10000 \<and> unat log2ne + j < 20"
      proof (cases "j = 1")
        case True
        from t1 t2 show ?thesis
          by (simp add: True MIN_PERIOD_def word_less_nat_alt p2 l1)
      next
        case False
        with a obtain i where i: "j = Suc i" "1 \<le> i" "i < k"
          by (cases j) auto
        with kj have "unat (per * 2) * 2 ^ i < 10000 \<and> unat (log2ne + 1) + i < 20" by blast
        then have "unat per * 2 * 2 ^ i < 10000 \<and> unat log2ne + 1 + i < 20"
          by (simp only: p2 l1)
        then show ?thesis by (simp add: i)
      qed
    qed
    have e: "10000 \<le> unat per * 2 ^ Suc k \<or> unat log2ne + Suc k = 20"
    proof -
      from ke have "10000 \<le> unat per * 2 * 2 ^ k \<or> unat log2ne + 1 + k = 20"
        by (simp only: p2 l1)
      then show ?thesis by simp
    qed
    have b: "unat log2ne + Suc k \<le> 20" using kb l1 by simp
    show ?thesis
      using c l p j e b by (intro exI [of _ "Suc k"]) simp
  next
    case False
    have c: "count_more log2ne per = (log2ne + of_nat 1, per * 2 ^ 1)"
      using count_more_stop [OF False] by simp
    have e: "10000 \<le> unat per * 2 ^ 1 \<or> unat log2ne + 1 = 20"
      using False lb by (auto simp: MIN_PERIOD_def word_less_nat_alt p2 l1)
    show ?thesis
      using c e lb l1 p2 by (intro exI [of _ 1]) simp
  qed
qed


lemma TIM1_COMPA_fires:
  assumes "counter_high s = cmp_high s" and "first_time (fast_cnt s) = 0"
  shows "TIM1_COMPA_vect s =
     (let ticks = fst (cli_ticks s);
          e = current_log2num_events (fast_cnt s);
          per = ticks - prev_ticks (fast_cnt s);
          s1 = s\<lparr>fast_wd := WD_TOP, counter_high := 0,
                 fast_cnt := (fast_cnt s)\<lparr>log2num_events := e, period := per, prev_ticks := ticks\<rparr>\<rparr>
      in case adjust_events e per s1 of (l, p, s2) \<Rightarrow> change_mode l p ticks s2)"
  using assms by (simp add: TIM1_COMPA_vect_def cli_ticks_def Let_def)


lemma init_state_fields:
  "slow_cnt init_state = slow_cnt startup_state" "fast_cnt init_state = fast_cnt startup_state"
  "current init_state = Slow" "fast_wd init_state = WD_TOP"
  "timer0_overflow_count init_state = 0" "counter_high init_state = 0" "cmp_high init_state = 0"
  "TCNT0 init_state = 0" "TIFR0 init_state = 0" "cmp_reg_args init_state = [1]"
  by (simp_all add: init_state_def init_event_counting_def set_timer_cmp_reg_def
      startup_state_def Let_def)



subsection \<open>The exponent stays between 1 and 20\<close>

lemma count_more_range:
  assumes "per < MIN_PERIOD" and "log2ne < 20" and "1 \<le> log2ne"
  shows "1 \<le> fst (count_more log2ne per) \<and> fst (count_more log2ne per) \<le> 20"
proof -
  from count_more_steps [OF assms(1,2)]
  obtain k where c: "count_more log2ne per = (log2ne + of_nat k, per * 2 ^ k)"
    and l: "unat (log2ne + of_nat k) = unat log2ne + k" and b: "unat log2ne + k \<le> 20"
    by blast
  from assms(3) have "1 \<le> unat log2ne" by (simp add: word_le_nat_alt)
  with l b show ?thesis by (simp add: c word_le_nat_alt)
qed

lemma count_fewer_range:
  "1 < log2ne \<Longrightarrow> log2ne \<le> 20 \<Longrightarrow>
   1 \<le> fst (count_fewer log2ne per) \<and> fst (count_fewer log2ne per) \<le> 20"
proof (induction log2ne per rule: count_fewer.induct)
  case (1 log2ne per)
  have lb: "1 < unat log2ne" using "1.prems"(1) by (simp add: word_less_nat_alt)
  have ub: "unat log2ne \<le> 20" using "1.prems"(2) by (simp add: word_le_nat_alt)
  have l1: "unat (log2ne - 1) = unat log2ne - 1"
    using lb by (simp add: unat_sub word_le_nat_alt)
  have r: "1 \<le> log2ne - 1 \<and> log2ne - 1 \<le> 20"
    using lb ub by (simp add: word_le_nat_alt l1) arith
  show ?case
  proof (cases "per div 2 > MIN_PERIOD * 3 \<and> log2ne - 1 > 1")
    case True
    then have t1: "per div 2 > MIN_PERIOD * 3" and t2: "log2ne - 1 > 1" by simp_all
    have "count_fewer log2ne per = count_fewer (log2ne - 1) (per div 2)"
      using True by (subst count_fewer.simps) (simp add: Let_def)
    with "1.IH" [OF refl refl True t2] r show ?thesis by simp
  next
    case False
    then have "count_fewer log2ne per = (log2ne - 1, per div 2)"
      by (subst count_fewer.simps) (auto simp: Let_def)
    with r show ?thesis by simp
  qed
qed

lemma exponent_inv_same:
  assumes "current_log2num_events (fast_cnt s') = current_log2num_events (fast_cnt s)"
    and "cmp_reg_args s' = cmp_reg_args s"
  shows "exponent_inv s' = exponent_inv s"
  using assms by (simp add: exponent_inv_def)

lemma exponent_inv_init: "exponent_inv init_state"
  by (simp add: exponent_inv_def init_state_fields startup_state_def)

lemma exponent_inv_EXT_INT0: "exponent_inv s \<Longrightarrow> exponent_inv (EXT_INT0_vect s)"
  by (simp add: exponent_inv_def EXT_INT0_vect_def cli_ticks_def Let_def)

lemma exponent_inv_slow_mode: "exponent_inv s \<Longrightarrow> exponent_inv (slow_mode s)"
  by (simp add: exponent_inv_def slow_mode_def set_timer_cmp_reg_def Let_def)

lemma exponent_inv_main_watchdog: "exponent_inv s \<Longrightarrow> exponent_inv (main_watchdog s)"
proof -
  assume i: "exponent_inv s"
  then have "exponent_inv (s\<lparr>fast_wd := WD_TOP\<rparr>)" and "exponent_inv (s\<lparr>fast_wd := fast_wd s - 1\<rparr>)"
    by (simp_all add: exponent_inv_def)
  then show ?thesis
    by (simp add: main_watchdog_def Let_def exponent_inv_slow_mode)
qed

lemma set_timer_cmp_reg_fields:
  "fast_cnt (set_timer_cmp_reg l s) = fast_cnt s"
  "cmp_reg_args (set_timer_cmp_reg l s) = l # cmp_reg_args s"
  by (simp_all add: set_timer_cmp_reg_def Let_def)

lemma exponent_inv_adjust_events:
  assumes i: "exponent_inv s" and e: "e = current_log2num_events (fast_cnt s)"
  shows "exponent_inv (snd (snd (adjust_events e per s)))"
proof -
  from i have eb: "1 \<le> e" "e \<le> 20" by (simp_all add: exponent_inv_def e)
  from i have a: "list_all (\<lambda>a. 1 \<le> a \<and> a \<le> 20) (cmp_reg_args s)"
    by (simp add: exponent_inv_def)
  consider (more) "per < MIN_PERIOD \<and> e < 20"
    | (fewer) "\<not> (per < MIN_PERIOD \<and> e < 20)" "per > MIN_PERIOD * 3 \<and> e > 1"
    | (same) "\<not> (per < MIN_PERIOD \<and> e < 20)" "\<not> (per > MIN_PERIOD * 3 \<and> e > 1)"
    by blast
  then show ?thesis
  proof cases
    case more
    then have "1 \<le> fst (count_more e per) \<and> fst (count_more e per) \<le> 20"
      using eb by (simp add: count_more_range)
    with more a show ?thesis
      by (simp add: adjust_events_def exponent_inv_def set_timer_cmp_reg_fields
          split_beta Let_def)
  next
    case fewer
    then have "1 \<le> fst (count_fewer e per) \<and> fst (count_fewer e per) \<le> 20"
      using eb by (simp add: count_fewer_range)
    with fewer a show ?thesis
      by (auto simp: adjust_events_def exponent_inv_def set_timer_cmp_reg_fields
          split_beta Let_def)
  next
    case same
    with i show ?thesis by (auto simp: adjust_events_def)
  qed
qed

lemma exponent_inv_change_mode: "exponent_inv (change_mode l p t s) = exponent_inv s"
  by (rule exponent_inv_same) (simp_all add: change_mode_def Let_def)

lemma exponent_inv_TIM1_COMPA:
  assumes i: "exponent_inv s"
  shows "exponent_inv (TIM1_COMPA_vect s)"
proof (cases "counter_high s = cmp_high s \<and> first_time (fast_cnt s) = 0")
  case True
  let ?ticks = "fst (cli_ticks s)"
  let ?e = "current_log2num_events (fast_cnt s)"
  let ?per = "?ticks - prev_ticks (fast_cnt s)"
  let ?s1 = "s\<lparr>fast_wd := WD_TOP, counter_high := 0,
                 fast_cnt := (fast_cnt s)\<lparr>log2num_events := ?e, period := ?per, prev_ticks := ?ticks\<rparr>\<rparr>"
  have "exponent_inv ?s1 = exponent_inv s" by (rule exponent_inv_same) simp_all
  with i have i1: "exponent_inv ?s1" by simp
  have e1: "?e = current_log2num_events (fast_cnt ?s1)" by simp
  have "exponent_inv (snd (snd (adjust_events ?e ?per ?s1)))"
    using i1 e1 by (rule exponent_inv_adjust_events)
  then show ?thesis
    using True by (simp add: TIM1_COMPA_fires Let_def split_beta exponent_inv_change_mode)
next
  case False
  have "exponent_inv (TIM1_COMPA_vect s) = exponent_inv s"
    using False by (intro exponent_inv_same) (auto simp: TIM1_COMPA_vect_def cli_ticks_def Let_def)
  with i show ?thesis by simp
qed

lemma reachable_exponent_inv: "reachable s \<Longrightarrow> exponent_inv s"
proof (induction rule: reachable.induct)
  case reach_init
  show ?case by (rule exponent_inv_init)
next
  case (reach_hw s a b c)
  then show ?case by (simp add: exponent_inv_def)
next
  case (reach_ovf s)
  then show ?case by (simp add: exponent_inv_def TIM0_OVF_vect_def)
next
  case (reach_int0 s)
  then show ?case by (simp add: exponent_inv_EXT_INT0)
next
  case (reach_compa s)
  then show ?case by (simp add: exponent_inv_TIM1_COMPA)
next
  case (reach_wd s w)
  then show ?case by (simp add: exponent_inv_def)
next
  case (reach_slow_mode s)
  then show ?case by (simp add: exponent_inv_slow_mode)
next
  case (reach_poll s)
  then show ?case by (simp add: exponent_inv_main_watchdog)
qed

text \<open>
  C10. In every state the program reaches, the exponent for the next period of the fast
  counter is between 1 and 20, and so is every argument \<open>set_timer_cmp_reg\<close> was called
  with; the shift amount \<open>log2ne - 16\<close> of its second branch is at most 4.
\<close>

theorem pending_exponent_in_range:
  assumes "reachable s"
  shows "1 \<le> current_log2num_events (fast_cnt s) \<and>
         current_log2num_events (fast_cnt s) \<le> 20 \<and>
         (\<forall>a \<in> set (cmp_reg_args s). 1 \<le> a \<and> a \<le> 20 \<and> unat a - 16 \<le> 4)"
proof -
  from assms have i: "exponent_inv s" by (rule reachable_exponent_inv)
  have "unat a - 16 \<le> 4" if "a \<le> 20" for a :: "8 word"
    using that by (simp add: word_le_nat_alt)
  with i show ?thesis
    by (auto simp: exponent_inv_def list_all_iff)
qed

lemma reachable_fast_period_100: "reachable fast_period_100"
proof -
  have "reachable (TIM1_COMPA_vect init_state)"
    by (intro reach_compa reach_init)
  then have "reachable ((TIM1_COMPA_vect init_state)
      \<lparr>TCNT0 := 100, TIFR0 := TIFR0 (TIM1_COMPA_vect init_state),
        TCNT1 := TCNT1 (TIM1_COMPA_vect init_state)\<rparr>)"
    by (rule reach_hw)
  then show ?thesis by (simp add: fast_period_100_def)
qed

theorem pending_exponent_in_range_witness:
  "reachable (TIM1_COMPA_vect fast_period_100) \<and>
   current_log2num_events (fast_cnt (TIM1_COMPA_vect fast_period_100)) \<le> 20 \<and>
   1 \<le> current_log2num_events (fast_cnt (TIM1_COMPA_vect fast_period_100))"
proof -
  have r: "reachable (TIM1_COMPA_vect fast_period_100)"
    by (intro reach_compa reachable_fast_period_100)
  from pending_exponent_in_range [OF r] r show ?thesis by simp
qed


subsection \<open>Choosing the range\<close>

lemma length_range_tab: "length range_tab = 5"
  by (simp add: range_tab_def)

lemma below_5: "n < 5 \<Longrightarrow> n = 0 \<or> n = 1 \<or> n = 2 \<or> n = 3 \<or> n = (4::nat)"
  by arith

lemma range_tab_overlap:
  "n < 4 \<Longrightarrow> min_range (range_tab ! Suc n) \<le> max_range (range_tab ! n)"
proof -
  assume "n < 4"
  then have "n = 0 \<or> n = 1 \<or> n = 2 \<or> n = 3" by arith
  then show ?thesis by (elim disjE) (simp_all add: range_tab_def)
qed

lemma range_tab_top: "n < 5 \<Longrightarrow> max_range (range_tab ! n) \<le> 99999999"
  by (drule below_5, elim disjE) (simp_all add: range_tab_def)

lemma range_tab_bottom: "min_range (range_tab ! 0) = 0"
  by (simp add: range_tab_def)

lemma scan_up_result:
  "scan_up freq i = Inr j \<Longrightarrow>
   unat j < 5 \<and> freq \<le> max_range (range_tab ! unat j)"
proof (induction freq i rule: scan_up.induct)
  case (1 freq i)
  show ?case
  proof (cases "unat i < length range_tab")
    case True
    show ?thesis
    proof (cases "freq > max_range (range_tab ! unat i)")
      case above: True
      with True "1.prems" have "scan_up freq (i + 1) = Inr j"
        by (subst (asm) scan_up.simps) simp
      with "1.IH" [OF True above] show ?thesis by simp
    next
      case False
      with True "1.prems" have "j = i"
        by (subst (asm) scan_up.simps) simp
      with True False show ?thesis by (simp add: length_range_tab)
    qed
  next
    case False
    with "1.prems" show ?thesis by (subst (asm) scan_up.simps) simp
  qed
qed

lemma scan_up_returns:
  "unat i < 5 \<Longrightarrow> freq \<le> 99999999 \<Longrightarrow> \<exists>j. scan_up freq i = Inr j"
proof (induction freq i rule: scan_up.induct)
  case (1 freq i)
  have b: "unat i < length range_tab" using "1.prems"(1) by (simp add: length_range_tab)
  show ?case
  proof (cases "freq > max_range (range_tab ! unat i)")
    case True
    have "unat i \<noteq> 4"
    proof
      assume "unat i = 4"
      with True have "freq > 99999999" by (simp add: range_tab_def)
      with "1.prems"(2) show False by simp
    qed
    with "1.prems"(1) have "unat i < 4" by simp
    then have "unat (i + 1) < 5" by (simp add: unat_word_ariths)
    from "1.IH" [OF b True this "1.prems"(2)] obtain j where "scan_up freq (i + 1) = Inr j" ..
    with b True show ?thesis by (subst scan_up.simps) simp
  next
    case False
    with b show ?thesis by (subst scan_up.simps) simp
  qed
qed

lemma scan_down_result:
  "scan_down freq i = Inr j \<Longrightarrow>
   unat j < 5 \<and> min_range (range_tab ! unat j) \<le> freq \<and>
   (j = i \<or> unat j < 4 \<and> freq < min_range (range_tab ! Suc (unat j)))"
proof (induction freq i rule: scan_down.induct)
  case (1 freq i)
  show ?case
  proof (cases "unat i < length range_tab")
    case True
    show ?thesis
    proof (cases "freq < min_range (range_tab ! unat i)")
      case below: True
      have "unat i \<noteq> 0"
      proof
        assume "unat i = 0"
        with below show False by (simp add: range_tab_bottom)
      qed
      then have "i \<noteq> 0" by (simp add: unat_eq_zero)
      then have u: "unat (i - 1) = unat i - 1" by (simp add: unat_minus_one)
      from True below "1.prems" have r: "scan_down freq (i - 1) = Inr j"
        by (subst (asm) scan_down.simps) simp
      from "1.IH" [OF True below r]
      have h: "unat j < 5 \<and> min_range (range_tab ! unat j) \<le> freq \<and>
        (j = i - 1 \<or> unat j < 4 \<and> freq < min_range (range_tab ! Suc (unat j)))" .
      have "unat j < 4 \<and> freq < min_range (range_tab ! Suc (unat j))"
      proof (cases "j = i - 1")
        case True
        with u \<open>unat i \<noteq> 0\<close> have "Suc (unat j) = unat i" by simp
        with below \<open>unat i < length range_tab\<close> show ?thesis
          by (simp add: length_range_tab)
      next
        case False
        with h show ?thesis by simp
      qed
      with h show ?thesis by simp
    next
      case False
      with True "1.prems" have "j = i"
        by (subst (asm) scan_down.simps) simp
      with True False show ?thesis by (simp add: length_range_tab)
    qed
  next
    case False
    with "1.prems" show ?thesis by (subst (asm) scan_down.simps) simp
  qed
qed

lemma scan_down_returns:
  "unat i < 5 \<Longrightarrow> \<exists>j. scan_down freq i = Inr j"
proof (induction freq i rule: scan_down.induct)
  case (1 freq i)
  have b: "unat i < length range_tab" using "1.prems" by (simp add: length_range_tab)
  show ?case
  proof (cases "freq < min_range (range_tab ! unat i)")
    case True
    have "unat i \<noteq> 0"
    proof
      assume "unat i = 0"
      with True show False by (simp add: range_tab_bottom)
    qed
    then have "i \<noteq> 0" by (simp add: unat_eq_zero)
    then have "unat (i - 1) = unat i - 1" by (simp add: unat_minus_one)
    with "1.prems" have "unat (i - 1) < 5" by simp
    from "1.IH" [OF b True this] obtain j where "scan_down freq (i - 1) = Inr j" ..
    with b True show ?thesis by (subst scan_down.simps) simp
  next
    case False
    with b show ?thesis by (subst scan_down.simps) simp
  qed
qed

lemma scan_up_stays:
  "unat i < 5 \<Longrightarrow> freq \<le> max_range (range_tab ! unat i) \<Longrightarrow> scan_up freq i = Inr i"
  by (subst scan_up.simps) (simp add: length_range_tab not_less [symmetric])

lemma scan_down_stays:
  "unat i < 5 \<Longrightarrow> min_range (range_tab ! unat i) \<le> freq \<Longrightarrow> scan_down freq i = Inr i"
  by (subst scan_down.simps) (simp add: length_range_tab not_less [symmetric])

lemma select_band_result:
  assumes "select_band freq i = Inr j"
  shows "unat j < 5 \<and> min_range (range_tab ! unat j) \<le> freq \<and>
         freq \<le> max_range (range_tab ! unat j)"
proof -
  from assms obtain m where up: "scan_up freq i = Inr m" and down: "scan_down freq m = Inr j"
    by (auto simp: select_band_def split: sum.splits)
  from scan_up_result [OF up] have m: "unat m < 5" "freq \<le> max_range (range_tab ! unat m)"
    by simp_all
  from scan_down_result [OF down]
  have j: "unat j < 5" "min_range (range_tab ! unat j) \<le> freq"
    "j = m \<or> unat j < 4 \<and> freq < min_range (range_tab ! Suc (unat j))"
    by simp_all
  have "freq \<le> max_range (range_tab ! unat j)"
  proof (cases "j = m")
    case True
    with m show ?thesis by simp
  next
    case False
    with j(3) have l: "unat j < 4" and "freq < min_range (range_tab ! Suc (unat j))" by simp_all
    with range_tab_overlap [OF l] show ?thesis by simp
  qed
  with j show ?thesis by simp
qed

text \<open>
  C7, as amended. For every frequency up to 99999999 dHz, the \<open>max\<close> of the last range, and
  every index inside the table of five ranges, the scan upwards and then downwards ends
  with an index inside the table, of a range that contains the frequency. For every
  frequency whatsoever the downward scan from an index inside the table ends inside the
  table: it never goes below index 0.
\<close>

theorem select_band_in_table:
  assumes "unat i < length range_tab" and "freq \<le> 99999999"
  shows "(\<exists>j. select_band freq i = Inr j \<and> unat j < length range_tab \<and>
             min_range (range_tab ! unat j) \<le> freq \<and> freq \<le> max_range (range_tab ! unat j)) \<and>
         (\<exists>j. scan_down freq' i = Inr j \<and> unat j < length range_tab)"
proof -
  from assms have "unat i < 5" by (simp add: length_range_tab)
  from scan_down_returns [OF this] obtain m' where d: "scan_down freq' i = Inr m'" ..
  from scan_down_result [OF d] d
  have never_below: "\<exists>j. scan_down freq' i = Inr j \<and> unat j < length range_tab"
    by (simp add: length_range_tab)
  from assms have i: "unat i < 5" by (simp add: length_range_tab)
  from scan_up_returns [OF i assms(2)] obtain m where up: "scan_up freq i = Inr m" ..
  from scan_up_result [OF up] have "unat m < 5" by simp
  from scan_down_returns [OF this] obtain j where down: "scan_down freq m = Inr j" ..
  from up down have s: "select_band freq i = Inr j" by (simp add: select_band_def)
  from select_band_result [OF s] s never_below show ?thesis by (simp add: length_range_tab)
qed

theorem select_band_in_table_witness:
  "select_band 12345 4 = Inr 1 \<and> select_band 99999999 0 = Inr 4"
proof -
  have a: "unat (4 :: 16 word) < length range_tab" "unat (0 :: 16 word) < length range_tab"
    by (simp_all add: length_range_tab)
  have b: "(12345 :: 32 word) \<le> 99999999" "(99999999 :: 32 word) \<le> 99999999" by simp_all
  from select_band_in_table [OF a(1) b(1)]
  obtain j where j: "select_band 12345 4 = Inr j" "unat j < length range_tab"
    "min_range (range_tab ! unat j) \<le> 12345" "12345 \<le> max_range (range_tab ! unat j)"
    by blast
  from j(2) have "unat j < 5" by (simp add: length_range_tab)
  then have "unat j = 0 \<or> unat j = 1 \<or> unat j = 2 \<or> unat j = 3 \<or> unat j = 4"
    by (rule below_5)
  with j(3,4) have "unat j = 1"
    by (elim disjE) (simp_all add: range_tab_def)
  then have "j = 1" using word_unat_eq_iff [of j 1] by simp
  from select_band_in_table [OF a(2) b(2)]
  obtain k where k: "select_band 99999999 0 = Inr k" "unat k < length range_tab"
    "min_range (range_tab ! unat k) \<le> 99999999" "99999999 \<le> max_range (range_tab ! unat k)"
    by blast
  from k(2) have "unat k < 5" by (simp add: length_range_tab)
  then have "unat k = 0 \<or> unat k = 1 \<or> unat k = 2 \<or> unat k = 3 \<or> unat k = 4"
    by (rule below_5)
  with k(3,4) have "unat k = 4"
    by (elim disjE) (simp_all add: range_tab_def)
  then have "k = 4" using word_unat_eq_iff [of k 4] by simp
  with \<open>j = 1\<close> j(1) k(1) show ?thesis by simp
qed

text \<open>
  The frequency computed for exponent 20 and 10000 ticks at 20 MHz is 327680000 dHz; from
  the last range the upward scan reads \<open>range[5]\<close>, outside the table.
\<close>

theorem select_band_sentinel_counterexample:
  "freq_dHz F_CPU_20MHz 20 10000 = Inr 327680000 \<and>
   scan_up 327680000 4 = Inl Index_Out_Of_Bounds \<and>
   select_band 327680000 4 = Inl Index_Out_Of_Bounds \<and>
   select_band 100000000 0 = Inl Index_Out_Of_Bounds"
  by (simp add: F_CPU_20MHz_def freq_dHz_def udiv_def select_band_def scan_up.simps range_tab_def)

text \<open>
  C9. If the scan from any index yields the index \<open>i\<close> for a frequency, then the scan
  from \<open>i\<close> for the same frequency yields \<open>i\<close> again.
\<close>

theorem select_band_idempotent:
  assumes "select_band freq i0 = Inr i"
  shows "select_band freq i = Inr i"
proof -
  from select_band_result [OF assms]
  have "unat i < 5" "min_range (range_tab ! unat i) \<le> freq" "freq \<le> max_range (range_tab ! unat i)"
    by simp_all
  then show ?thesis
    by (simp add: select_band_def scan_up_stays scan_down_stays)
qed

theorem select_band_idempotent_witness:
  "select_band 12345 4 = Inr 1 \<and> select_band 12345 1 = Inr 1"
proof -
  have a: "select_band 12345 4 = Inr 1"
    by (simp add: select_band_def scan_up.simps scan_down.simps range_tab_def)
  from select_band_idempotent [OF a] a show ?thesis by simp
qed


subsection \<open>The placeholder line\<close>

lemma fold_lcd_putc: "fold lcd_putc cs e = e\<lparr>lcd := lcd e @ cs\<rparr>"
  by (induction cs arbitrary: e) (simp_all add: lcd_putc_def)

lemma show_line_eq:
  "show_line s d =
     (if s = prev_line d then d
      else d\<lparr>prev_line := take 8 s,
             lcd := take 8 s @ replicate (8 - length (take 8 s)) CHR '' ''\<rparr>)"
  unfolding show_line_def Let_def fold_lcd_putc lcd_home_def by simp

lemma show_line_placeholder:
  assumes "prev_line d = ''---'' \<longrightarrow> lcd d = ''---     ''"
  shows "prev_line (show_line ''---'' d) = ''---'' \<and> lcd (show_line ''---'' d) = ''---     '' \<and>
         prev_freq (show_line ''---'' d) = prev_freq d"
  using assms by (auto simp: show_line_eq numeral_eq_Suc)

lemma show_line_prev_freq: "prev_freq (show_line s d) = prev_freq d"
  by (simp add: show_line_eq)

lemma show_line_keeps_inv_line:
  assumes "prev_line d = ''---'' \<longrightarrow> lcd d = ''---     ''"
  shows "prev_line (show_line s d) = ''---'' \<longrightarrow> lcd (show_line s d) = ''---     ''"
proof (cases "s = prev_line d")
  case True
  with assms show ?thesis by (simp add: show_line_eq)
next
  case False
  show ?thesis
  proof
    assume "prev_line (show_line s d) = ''---''"
    with False have "take 8 s = ''---''" by (simp add: show_line_eq)
    with False show "lcd (show_line s d) = ''---     ''"
      by (simp add: show_line_eq numeral_eq_Suc)
  qed
qed












lemma display_freq_zero:
  assumes "display_inv d"
  shows "\<exists>d'. display_freq 0 d = Inr d' \<and> prev_line d' = ''---'' \<and> lcd d' = ''---     '' \<and>
              display_inv d'"
proof (cases "prev_freq d = 0")
  case True
  with assms show ?thesis by (simp add: display_freq_def display_inv_def)
next
  case False
  let ?d1 = "d\<lparr>prev_freq := 0\<rparr>"
  from assms have "prev_line ?d1 = ''---'' \<longrightarrow> lcd ?d1 = ''---     ''"
    by (simp add: display_inv_def)
  from show_line_placeholder [OF this] False show ?thesis
    by (simp add: display_freq_def display_inv_def Let_def)
qed

lemma display_freq_keeps_inv:
  assumes "display_inv d" and "display_freq freq d = Inr d'"
  shows "display_inv d'"
proof (cases "freq = prev_freq d \<or> freq = 0")
  case True
  with assms display_freq_zero [OF assms(1)] show ?thesis
    by (auto simp: display_freq_def)
next
  case False
  from False assms(2) obtain j line
    where d': "d' = show_line line (d\<lparr>prev_freq := freq, curr_range := j\<rparr>)"
    by (auto simp: display_freq_def Let_def split: sum.splits)
  let ?d1 = "d\<lparr>prev_freq := freq, curr_range := j\<rparr>"
  from assms(1) have "prev_line ?d1 = ''---'' \<longrightarrow> lcd ?d1 = ''---     ''"
    by (simp add: display_inv_def)
  from show_line_keeps_inv_line [OF this] False show ?thesis
    by (simp add: display_inv_def d' show_line_prev_freq)
qed

lemma display_measurement_keeps_inv:
  assumes "display_inv d" and "display_measurement F_CPU n ticks d = Inr d'"
  shows "display_inv d'"
proof (cases "ticks = 0")
  case True
  from assms(1) have l: "prev_line d = ''---'' \<longrightarrow> lcd d = ''---     ''"
    by (simp add: display_inv_def)
  from True assms(2) have "d' = show_line ''---'' d" by (simp add: display_measurement_def)
  with show_line_placeholder [OF l] show ?thesis by (simp add: display_inv_def)
next
  case False
  with assms(2) obtain f where "display_freq f d = Inr d'"
    by (auto simp: display_measurement_def split: sum.splits)
  with assms(1) show ?thesis by (rule display_freq_keeps_inv)
qed












end
